theory Spec2Isabelle
  imports Main "HOL-Library.Multiset" "HOL-Library.Char_ord" "HOL-Library.List_Lexorder"
begin

section \<open>The wordlist generator of generator.py\<close>

text \<open>
  A Python \<open>str\<close> is modelled as a \<open>string\<close>, one \<open>char\<close> for each character
  (code point below 256). The case functions and character predicates are the ASCII
  ones. Raw seeds are the only strings that come from outside, and \<open>_clean_seeds\<close>
  deletes every character outside \<open>[a-zA-Z0-9]\<close> from them before any other
  function sees them. Strings are compared as Python compares them: lexicographically,
  character by character, a proper prefix first.
\<close>

subsection \<open>Characters and the string methods the generator calls\<close>

definition ascii_lowercase :: string where
  "ascii_lowercase = ''abcdefghijklmnopqrstuvwxyz''"

definition ascii_uppercase :: string where
  "ascii_uppercase = ''ABCDEFGHIJKLMNOPQRSTUVWXYZ''"

definition digits :: string where
  "digits = ''0123456789''"

text \<open>The characters for which \<open>str.isspace\<close> holds, among the first 256 code points.\<close>

definition whitespace :: string where
  "whitespace = [CHR 0x09, CHR 0x0A, CHR 0x0B, CHR 0x0C, CHR 0x0D, CHR 0x1C, CHR 0x1D,
                 CHR 0x1E, CHR 0x1F, CHR 0x20, CHR 0x85, CHR 0xA0]"

definition lower_char :: "char \<Rightarrow> char" where
  "lower_char c = (case map_of (zip ascii_uppercase ascii_lowercase) c of
                     Some d \<Rightarrow> d | None \<Rightarrow> c)"

definition upper_char :: "char \<Rightarrow> char" where
  "upper_char c = (case map_of (zip ascii_lowercase ascii_uppercase) c of
                     Some d \<Rightarrow> d | None \<Rightarrow> c)"

text \<open>\<open>str.lower\<close>, \<open>str.upper\<close> and \<open>str.capitalize\<close> (first character upper case,
  the rest lower case).\<close>

definition lower :: "string \<Rightarrow> string" where
  "lower s = map lower_char s"

definition upper :: "string \<Rightarrow> string" where
  "upper s = map upper_char s"

fun capitalize :: "string \<Rightarrow> string" where
  "capitalize [] = []"
| "capitalize (c # cs) = upper_char c # map lower_char cs"

text \<open>\<open>str.isalpha\<close>, \<open>str.isdigit\<close> and \<open>str.isspace\<close> are false for the empty string.\<close>

definition isalpha :: "string \<Rightarrow> bool" where
  "isalpha s = (s \<noteq> [] \<and> list_all (\<lambda>c. c \<in> set (ascii_lowercase @ ascii_uppercase)) s)"

definition isdigit :: "string \<Rightarrow> bool" where
  "isdigit s = (s \<noteq> [] \<and> list_all (\<lambda>c. c \<in> set digits) s)"

definition isspace :: "string \<Rightarrow> bool" where
  "isspace s = (s \<noteq> [] \<and> list_all (\<lambda>c. c \<in> set whitespace) s)"

text \<open>\<open>str.strip()\<close>: whitespace is dropped at both ends.\<close>

definition strip :: "string \<Rightarrow> string" where
  "strip s = rev (dropWhile (\<lambda>c. c \<in> set whitespace) (rev (dropWhile (\<lambda>c. c \<in> set whitespace) s)))"

text \<open>\<open>re.sub(r"[^a-zA-Z0-9]", "", seed)\<close>: every character outside the class is
  deleted.\<close>

definition re_sub_non_alnum :: "string \<Rightarrow> string" where
  "re_sub_non_alnum seed =
     filter (\<lambda>c. c \<in> set (ascii_lowercase @ ascii_uppercase @ digits)) seed"

subsection \<open>Python sets\<close>

text \<open>
  A Python set of strings is a list without repetitions. The order in which Python
  iterates over a set is not fixed by the language (it depends on the hashes of the
  strings, which change from one process to the next), so every iteration over a set,
  \<open>list(s)\<close> included, goes through a parameter \<open>iter\<close> that rearranges the
  elements; \<open>valid_iter\<close> is all that is known of it.
\<close>

type_synonym iteration = "string list \<Rightarrow> string list"

definition valid_iter :: "iteration \<Rightarrow> bool" where
  "valid_iter iter = (\<forall>xs. mset (iter xs) = mset xs)"

definition set_add :: "string \<Rightarrow> string list \<Rightarrow> string list" where
  "set_add x s = (if x \<in> set s then s else s @ [x])"

subsection \<open>Leetspeak\<close>

definition LEET_MAP :: "char \<rightharpoonup> string list" where
  "LEET_MAP = [CHR ''a'' \<mapsto> [''a'', ''@'', ''4''],
               CHR ''e'' \<mapsto> [''e'', ''3''],
               CHR ''i'' \<mapsto> [''i'', ''1'', ''!''],
               CHR ''o'' \<mapsto> [''o'', ''0''],
               CHR ''s'' \<mapsto> [''s'', ''$'', ''5''],
               CHR ''t'' \<mapsto> [''t'', ''7'']]"

text \<open>\<open>LEET_MAP.get(ch, [ch])\<close>\<close>

definition leet_options :: "char \<Rightarrow> string list" where
  "leet_options ch = (case LEET_MAP ch of Some ops \<Rightarrow> ops | None \<Rightarrow> [[ch]])"

text \<open>The loop of \<open>apply_leet\<close> over the characters of the lowercased word, on
  the list \<open>variations\<close>.\<close>

fun leet_loop :: "string \<Rightarrow> string list \<Rightarrow> string list" where
  "leet_loop [] variations = variations"
| "leet_loop (ch # rest) variations =
     leet_loop rest [prefix @ op. prefix \<leftarrow> variations, op \<leftarrow> leet_options ch]"

definition apply_leet :: "iteration \<Rightarrow> string \<Rightarrow> string list" where
  "apply_leet iter word =
     (if word = [] then [] else iter (remdups (leet_loop (lower word) [''''])))"

subsection \<open>Patterns\<close>

definition symbols :: "string list" where
  "symbols = [''!'', ''@'', ''#'', ''$'', ''_'', ''.'']"

text \<open>The body of the loop over \<open>years\<close> for one word (year suffix and prefix
  patterns).\<close>

definition year_step :: "string \<Rightarrow> string \<Rightarrow> string list \<Rightarrow> string list" where
  "year_step word y final =
     (if y = [] then final
      else set_add (y @ word) (set_add (word @ ''_'' @ y) (set_add (word @ y) final)))"

text \<open>The body of the loop over \<open>symbols\<close> for one word, and of the loop over
  \<open>years\<close> inside it; \<open>sym * 2\<close> is the symbol twice.\<close>

definition symbol_year_step :: "string \<Rightarrow> string \<Rightarrow> string \<Rightarrow> string list \<Rightarrow> string list" where
  "symbol_year_step word sm y final = set_add (sm @ word @ y) (set_add (word @ sm @ y) final)"

definition symbol_step :: "string \<Rightarrow> string list \<Rightarrow> string \<Rightarrow> string list \<Rightarrow> string list" where
  "symbol_step word years sm final =
     (let final = set_add (word @ sm) final;
          final = set_add (sm @ word) final;
          final = set_add (word @ (sm @ sm)) final
      in if years \<noteq> [] then fold (symbol_year_step word sm) years final else final)"

text \<open>The body of the loop over \<open>words\<close>.\<close>

definition word_step :: "string list \<Rightarrow> string \<Rightarrow> string list \<Rightarrow> string list" where
  "word_step years word final =
     (if word = [] then final
      else (let final = set_add word final;
                final = fold (year_step word) years final
            in fold (symbol_step word years) symbols final))"

definition apply_patterns :: "iteration \<Rightarrow> string list \<Rightarrow> string list \<Rightarrow> string list" where
  "apply_patterns iter words years = iter (fold (word_step years) words [])"

text \<open>What the specification says \<open>apply_patterns\<close> adds for one variant \<open>v\<close>.\<close>

definition spec_patterns :: "string \<Rightarrow> string list \<Rightarrow> string set" where
  "spec_patterns v years =
     {v} \<union> (\<Union>n\<in>set years. {v @ n, v @ ''_'' @ n, n @ v})
         \<union> (\<Union>s\<in>set symbols. {v @ s, s @ v, v @ s @ s})
         \<union> (if years \<noteq> [] then (\<Union>s\<in>set symbols. \<Union>n\<in>set years. {v @ s @ n, s @ v @ n})
            else {})"

subsection \<open>Stemming\<close>

text \<open>
  NLTK's \<open>PorterStemmer\<close> is an optional library outside the repository: the
  parameter \<open>stemmer\<close> is \<open>None\<close> when the import failed (\<open>_HAS_NLTK\<close> is false)
  and \<open>Some stem\<close>, with \<open>stem\<close> the function \<open>PorterStemmer().stem\<close>, otherwise.
\<close>

type_synonym stemmer = "(string \<Rightarrow> string) option"

definition stem_word :: "iteration \<Rightarrow> stemmer \<Rightarrow> string \<Rightarrow> string list" where
  "stem_word iter stemmer word =
     (let variants = [word];
          variants =
            (case stemmer of
               None \<Rightarrow> variants
             | Some stem_fn \<Rightarrow>
                 if isalpha word
                 then (let stem = stem_fn (lower word)
                       in if stem \<noteq> [] \<and> stem \<noteq> lower word then set_add stem variants
                          else variants)
                 else variants)
      in iter variants)"

subsection \<open>Seeds\<close>

text \<open>The value of \<open>cleaned\<close> for a seed: \<open>re.sub\<close> on the stripped seed.\<close>

definition cleaned_token :: "string \<Rightarrow> string" where
  "cleaned_token seed = re_sub_non_alnum (strip seed)"

text \<open>One round of the loop of \<open>_clean_seeds\<close>, on the two lists it fills. (A seed
  that is \<open>None\<close> counts as the empty string there.)\<close>

definition clean_seed :: "string \<Rightarrow> string list \<times> string list \<Rightarrow> string list \<times> string list" where
  "clean_seed seed acc =
     (case acc of (clean_words, clean_numbers) \<Rightarrow>
        (let seed = strip seed in
         if seed = [] then (clean_words, clean_numbers)
         else (let cleaned = re_sub_non_alnum seed in
               if cleaned = [] then (clean_words, clean_numbers)
               else if isdigit cleaned then (clean_words, clean_numbers @ [cleaned])
               else (clean_words @ [cleaned], clean_numbers))))"

definition clean_seeds :: "string list \<Rightarrow> string list \<times> string list" where
  "clean_seeds seeds = fold clean_seed seeds ([], [])"

subsection \<open>The generator\<close>

text \<open>The dictionary \<open>options\<close>: \<open>opt_length\<close> is \<open>None\<close> when the key
  \<open>length\<close> is absent (or holds \<open>None\<close>).\<close>

record options =
  opt_length :: "int option"
  opt_rules :: "string option"

text \<open>\<open>options.get("length", 12)\<close>\<close>

definition get_length :: "options \<Rightarrow> int" where
  "get_length opts = (case opt_length opts of None \<Rightarrow> 12 | Some n \<Rightarrow> n)"

text \<open>\<open>int(options.get("length", 12) or 12)\<close>: the integer 0 is false in Python, so
  \<open>0 or 12\<close> is 12.\<close>

definition max_len_of :: "options \<Rightarrow> int" where
  "max_len_of opts = (if get_length opts = 0 then 12 else get_length opts)"

text \<open>The list \<open>word_variations\<close>, as it is after \<open>list(set(word_variations))\<close>.\<close>

definition word_variations :: "iteration \<Rightarrow> stemmer \<Rightarrow> string list \<Rightarrow> string list" where
  "word_variations iter stemmer clean_words =
     iter (remdups
       (concat (map (\<lambda>w.
          concat (map (\<lambda>base. apply_leet iter base @ [lower base, capitalize base, upper base])
                    (stem_word iter stemmer w)))
          clean_words)))"

text \<open>The simple word and number combinations.\<close>

definition combo_step :: "string \<Rightarrow> string \<Rightarrow> string list \<Rightarrow> string list" where
  "combo_step w num final = set_add (num @ w) (set_add (w @ num) final)"

definition number_combos :: "string list \<Rightarrow> string list \<Rightarrow> string list \<Rightarrow> string list" where
  "number_combos variations clean_numbers final =
     fold (\<lambda>w. fold (combo_step w) clean_numbers) variations final"

definition common_suffixes :: "string list" where
  "common_suffixes = [''123'', ''!'', ''!'', ''99'', ''007'']"

text \<open>The generic suffixes: the loop runs over a copy of \<open>final\<close> made before it.\<close>

definition suffix_step :: "int \<Rightarrow> string \<Rightarrow> string \<Rightarrow> string list \<Rightarrow> string list" where
  "suffix_step max_len w suf final =
     (let candidate = w @ suf
      in if int (length candidate) \<le> max_len then set_add candidate final else final)"

definition add_suffixes :: "iteration \<Rightarrow> int \<Rightarrow> string list \<Rightarrow> string list" where
  "add_suffixes iter max_len final =
     fold (\<lambda>w. fold (suffix_step max_len w) common_suffixes) (iter final) final"

text \<open>The set \<open>final\<close> as it is before the final filtering.\<close>

definition final_candidates ::
  "iteration \<Rightarrow> stemmer \<Rightarrow> int \<Rightarrow> string list \<Rightarrow> string list" where
  "final_candidates iter stemmer max_len seeds =
     (case clean_seeds seeds of (clean_words, clean_numbers) \<Rightarrow>
        (let final = [];
             variations = word_variations iter stemmer clean_words;
             patterned = apply_patterns iter variations clean_numbers;
             final = number_combos variations clean_numbers final;
             final = fold set_add patterned final;
             final = fold set_add clean_numbers final;
             final = fold set_add variations final
         in add_suffixes iter max_len final))"

definition generate_wordlist ::
  "iteration \<Rightarrow> stemmer \<Rightarrow> string list \<Rightarrow> options \<Rightarrow> string list" where
  "generate_wordlist iter stemmer seeds opts =
     (let max_len = max_len_of opts;
          final = final_candidates iter stemmer max_len seeds;
          filtered = filter (\<lambda>w. 3 \<le> int (length w) \<and> int (length w) \<le> max_len \<and> \<not> isspace w)
                       (iter final)
      in sort (iter filtered))"

section \<open>Properties\<close>

subsection \<open>Iteration orders and set insertion\<close>

lemma valid_iter_set: "valid_iter iter \<Longrightarrow> set (iter xs) = set xs"
  unfolding valid_iter_def by (metis set_mset_mset)

lemma valid_iter_distinct: "valid_iter iter \<Longrightarrow> distinct (iter xs) = distinct xs"
  unfolding valid_iter_def by (metis mset_eq_imp_distinct_iff)

lemma valid_iter_Nil: "valid_iter iter \<Longrightarrow> iter [] = []"
  unfolding valid_iter_def by (metis mset_zero_iff)

lemma valid_iter_id: "valid_iter id"
  by (simp add: valid_iter_def)

lemma valid_iter_rev: "valid_iter rev"
  by (simp add: valid_iter_def)

lemma set_set_add: "set (set_add x s) = insert x (set s)"
  by (auto simp: set_add_def)

lemma distinct_set_add: "distinct s \<Longrightarrow> distinct (set_add x s)"
  by (simp add: set_add_def)

lemma set_fold_set_add: "set (fold set_add xs s) = set xs \<union> set s"
  by (induction xs arbitrary: s) (auto simp: set_set_add)

lemma distinct_fold_set_add: "distinct s \<Longrightarrow> distinct (fold set_add xs s)"
  by (induction xs arbitrary: s) (auto simp: distinct_set_add)

subsection \<open>Seed normalisation\<close>

lemma clean_seed_eq:
  "clean_seed seed (ws, ns) =
     (ws @ [c \<leftarrow> [cleaned_token seed]. c \<noteq> [] \<and> \<not> isdigit c],
      ns @ [c \<leftarrow> [cleaned_token seed]. c \<noteq> [] \<and> isdigit c])"
  by (auto simp: clean_seed_def cleaned_token_def Let_def re_sub_non_alnum_def)

lemma fold_clean_seed:
  "fold clean_seed seeds (ws, ns) =
     (ws @ [c \<leftarrow> map cleaned_token seeds. c \<noteq> [] \<and> \<not> isdigit c],
      ns @ [c \<leftarrow> map cleaned_token seeds. c \<noteq> [] \<and> isdigit c])"
proof (induction seeds arbitrary: ws ns)
  case Nil
  show ?case by simp
next
  case (Cons seed seeds)
  show ?case
    by (simp only: fold_simps clean_seed_eq Cons.IH) simp
qed

lemma clean_seeds_eq:
  "clean_seeds seeds =
     ([c \<leftarrow> map cleaned_token seeds. c \<noteq> [] \<and> \<not> isdigit c],
      [c \<leftarrow> map cleaned_token seeds. c \<noteq> [] \<and> isdigit c])"
  using fold_clean_seed [of seeds "[]" "[]"] by (simp add: clean_seeds_def)

subsection \<open>Leetspeak expansion\<close>

lemma leet_options_length: "op \<in> set (leet_options c) \<Longrightarrow> length op = 1"
  by (auto simp: leet_options_def LEET_MAP_def split: if_splits)

lemma leet_options_distinct: "distinct (leet_options c)"
  by (auto simp: leet_options_def LEET_MAP_def)

lemma leet_step_length:
  "length [prefix @ op. prefix \<leftarrow> vs, op \<leftarrow> ops] = length vs * length ops"
  by (induction vs) auto

lemma leet_step_distinct:
  assumes "distinct vs" and "\<forall>v\<in>set vs. length v = n" and "distinct ops"
  shows "distinct [prefix @ op. prefix \<leftarrow> vs, op \<leftarrow> ops]"
  using assms
proof (induction vs)
  case Nil
  show ?case by simp
next
  case (Cons v vs)
  have d1: "distinct (map (\<lambda>op. v @ op) ops)"
    using Cons.prems(3) by (simp add: distinct_map inj_on_def)
  have d2: "distinct [prefix @ op. prefix \<leftarrow> vs, op \<leftarrow> ops]"
    using Cons by simp
  have d3: "set (map (\<lambda>op. v @ op) ops) \<inter> set [prefix @ op. prefix \<leftarrow> vs, op \<leftarrow> ops] = {}"
  proof (rule ccontr)
    assume "\<not> ?thesis"
    then obtain op p op' where "v @ op = p @ op'" and "p \<in> set vs"
      by auto
    moreover have "length p = length v" using Cons.prems(2) \<open>p \<in> set vs\<close> by simp
    ultimately have "v = p" by simp
    with \<open>p \<in> set vs\<close> Cons.prems(1) show False by simp
  qed
  from d1 d2 d3 show ?case by simp
qed

text \<open>The loop keeps the partial strings pairwise different and of one length, and
  multiplies their number by the number of options of each character.\<close>

lemma leet_loop_props:
  "distinct vs \<Longrightarrow> \<forall>v\<in>set vs. length v = n \<Longrightarrow>
     distinct (leet_loop cs vs)
     \<and> (\<forall>v\<in>set (leet_loop cs vs). length v = n + length cs)
     \<and> length (leet_loop cs vs) = length vs * prod_list (map (\<lambda>c. length (leet_options c)) cs)"
proof (induction cs arbitrary: vs n)
  case Nil
  then show ?case by simp
next
  case (Cons c cs)
  let ?vs = "[prefix @ op. prefix \<leftarrow> vs, op \<leftarrow> leet_options c]"
  have d: "distinct ?vs"
    using Cons.prems leet_options_distinct by (rule leet_step_distinct)
  have l: "\<forall>v\<in>set ?vs. length v = Suc n"
    using Cons.prems(2) by (auto simp: leet_options_length)
  have n: "length ?vs = length vs * length (leet_options c)"
    by (rule leet_step_length)
  from Cons.IH [OF d l] n show ?case by simp
qed

lemma leet_loop_chars:
  "\<forall>v\<in>set vs. set v \<subseteq> A \<Longrightarrow> \<forall>c\<in>set cs. \<forall>op\<in>set (leet_options c). set op \<subseteq> A \<Longrightarrow>
     \<forall>v\<in>set (leet_loop cs vs). set v \<subseteq> A"
proof (induction cs arbitrary: vs)
  case Nil
  then show ?case by simp
next
  case (Cons c cs)
  show ?case
    unfolding leet_loop.simps
  proof (rule Cons.IH)
    show "\<forall>v\<in>set [prefix @ op. prefix \<leftarrow> vs, op \<leftarrow> leet_options c]. set v \<subseteq> A"
      using Cons.prems by auto
    show "\<forall>c\<in>set cs. \<forall>op\<in>set (leet_options c). set op \<subseteq> A"
      using Cons.prems(2) by simp
  qed
qed

lemma set_apply_leet:
  "valid_iter iter \<Longrightarrow>
     set (apply_leet iter word) = (if word = [] then {} else set (leet_loop (lower word) ['''']))"
  by (simp add: apply_leet_def valid_iter_set)

text \<open>C6: for a non-empty word, the number of distinct strings that \<open>apply_leet\<close>
  returns is the product, over the characters of the lowercased word, of the lengths of
  their option lists: 3 for a, 2 for e, 3 for i, 2 for o, 3 for s, 2 for t, and 1 for a
  character that is not in the table. (The list returned has no repetitions, so this
  is its length too.)\<close>

theorem apply_leet_count:
  assumes "valid_iter iter" and "word \<noteq> []"
  shows "card (set (apply_leet iter word))
           = prod_list (map (\<lambda>c. length (leet_options c)) (lower word))
         \<and> length (apply_leet iter word) = card (set (apply_leet iter word))
         \<and> map (\<lambda>c. length (leet_options c)) ''aeiost'' = [3, 2, 3, 2, 3, 2]
         \<and> (\<forall>c. c \<notin> set ''aeiost'' \<longrightarrow> length (leet_options c) = 1)"
proof -
  have p: "distinct (leet_loop (lower word) ['''']) \<and>
        length (leet_loop (lower word) [''''])
          = prod_list (map (\<lambda>c. length (leet_options c)) (lower word))"
    using leet_loop_props [of "['''']" 0 "lower word"] by simp
  have s: "set (apply_leet iter word) = set (leet_loop (lower word) [''''])"
    using assms by (simp add: set_apply_leet)
  have d: "distinct (apply_leet iter word)"
    using assms p by (simp add: apply_leet_def valid_iter_distinct)
  have c: "card (set (apply_leet iter word)) = length (leet_loop (lower word) [''''])"
    using p s by (simp add: distinct_card)
  have t: "map (\<lambda>c. length (leet_options c)) ''aeiost'' = [3, 2, 3, 2, 3, 2]"
    by (simp add: leet_options_def LEET_MAP_def)
  have u: "\<forall>c. c \<notin> set ''aeiost'' \<longrightarrow> length (leet_options c) = 1"
    by (simp add: leet_options_def LEET_MAP_def)
  from c p d t u show ?thesis by (simp add: distinct_card)
qed

theorem apply_leet_count_witness:
  "card (set (apply_leet rev ''Pass'')) = 27 \<and> length (apply_leet rev ''Pass'') = 27"
proof -
  have "''Pass'' \<noteq> []" by simp
  from apply_leet_count [OF valid_iter_rev this]
  show ?thesis
    by (simp add: lower_def lower_char_def ascii_uppercase_def ascii_lowercase_def
        leet_options_def LEET_MAP_def)
qed

subsection \<open>Pattern composition\<close>

lemma set_fold_union:
  assumes "\<And>x s. set (f x s) = set s \<union> g x"
  shows "set (fold f xs s) = set s \<union> (\<Union>x\<in>set xs. g x)"
  by (induction xs arbitrary: s) (auto simp: assms)

lemma distinct_fold:
  assumes "\<And>x s. distinct s \<Longrightarrow> distinct (f x s)"
  shows "distinct s \<Longrightarrow> distinct (fold f xs s)"
  by (induction xs arbitrary: s) (auto simp: assms)

lemma set_year_step:
  "set (year_step word y final) =
     set final \<union> (if y = [] then {} else {word @ y, word @ ''_'' @ y, y @ word})"
  by (auto simp: year_step_def set_set_add)

lemma set_symbol_year_step:
  "set (symbol_year_step word sm y final) = set final \<union> {word @ sm @ y, sm @ word @ y}"
  by (auto simp: symbol_year_step_def set_set_add)

lemma set_symbol_step:
  "set (symbol_step word years sm final) =
     set final \<union> ({word @ sm, sm @ word, word @ sm @ sm}
                   \<union> (\<Union>y\<in>set years. {word @ sm @ y, sm @ word @ y}))"
proof (cases "years = []")
  case True
  then show ?thesis by (auto simp: symbol_step_def set_set_add)
next
  case False
  have "set (symbol_step word years sm final) =
        set (set_add (word @ (sm @ sm)) (set_add (sm @ word) (set_add (word @ sm) final)))
          \<union> (\<Union>y\<in>set years. {word @ sm @ y, sm @ word @ y})"
    using False by (simp add: symbol_step_def set_fold_union [OF set_symbol_year_step])
  then show ?thesis by (simp add: set_set_add) blast
qed

lemma set_word_step:
  "set (word_step years word final) =
     set final \<union>
       (if word = [] then {}
        else {word}
           \<union> (\<Union>y\<in>set years. if y = [] then {} else {word @ y, word @ ''_'' @ y, y @ word})
           \<union> (\<Union>sm\<in>set symbols. {word @ sm, sm @ word, word @ sm @ sm}
                                   \<union> (\<Union>y\<in>set years. {word @ sm @ y, sm @ word @ y})))"
proof (cases "word = []")
  case True
  then show ?thesis by (simp add: word_step_def)
next
  case False
  then show ?thesis
    by (simp add: word_step_def set_fold_union [OF set_symbol_step]
        set_fold_union [OF set_year_step] set_set_add Un_assoc)
qed

lemma set_apply_patterns:
  "valid_iter iter \<Longrightarrow> set (apply_patterns iter words years) =
     (\<Union>word\<in>set words.
       (if word = [] then {}
        else {word}
           \<union> (\<Union>y\<in>set years. if y = [] then {} else {word @ y, word @ ''_'' @ y, y @ word})
           \<union> (\<Union>sm\<in>set symbols. {word @ sm, sm @ word, word @ sm @ sm}
                                   \<union> (\<Union>y\<in>set years. {word @ sm @ y, sm @ word @ y}))))"
  by (simp add: apply_patterns_def valid_iter_set set_fold_union [OF set_word_step])

lemma distinct_word_step: "distinct final \<Longrightarrow> distinct (word_step years word final)"
  by (simp add: word_step_def symbol_step_def [abs_def] year_step_def [abs_def]
      symbol_year_step_def [abs_def] Let_def distinct_fold distinct_set_add)

lemma distinct_apply_patterns: "valid_iter iter \<Longrightarrow> distinct (apply_patterns iter words years)"
  by (simp add: apply_patterns_def valid_iter_distinct distinct_fold distinct_word_step)

text \<open>C5: for words and years that are all non-empty, \<open>apply_patterns\<close> returns, as a
  set, the union over the variants \<open>v\<close> of what the specification lists for \<open>v\<close>
  (\<open>spec_patterns\<close>): \<open>v\<close> itself, the three forms with each number, the three
  forms with each symbol and, when there are numbers, the two forms with each symbol
  and number. In particular every variant is in the output.\<close>

theorem apply_patterns_spec:
  assumes "valid_iter iter" and "[] \<notin> set words" and "[] \<notin> set years"
  shows "set (apply_patterns iter words years) = (\<Union>v\<in>set words. spec_patterns v years)
         \<and> set words \<subseteq> set (apply_patterns iter words years)"
proof -
  have y: "(\<Union>y\<in>set years. if y = [] then {} else {v @ y, v @ ''_'' @ y, y @ v})
           = (\<Union>y\<in>set years. {v @ y, v @ ''_'' @ y, y @ v})" for v
    using assms(3) by (intro SUP_cong) auto
  have v: "(if v = [] then {}
        else {v}
           \<union> (\<Union>y\<in>set years. if y = [] then {} else {v @ y, v @ ''_'' @ y, y @ v})
           \<union> (\<Union>sm\<in>set symbols. {v @ sm, sm @ v, v @ sm @ sm}
                                   \<union> (\<Union>y\<in>set years. {v @ sm @ y, sm @ v @ y})))
           = spec_patterns v years" if "v \<in> set words" for v
  proof -
    have "v \<noteq> []" using that assms(2) by auto
    show ?thesis
    proof (cases "years = []")
      case True
      with \<open>v \<noteq> []\<close> show ?thesis by (simp add: spec_patterns_def)
    next
      case False
      have d: "(\<Union>sm\<in>set symbols. {v @ sm, sm @ v, v @ sm @ sm}
                                   \<union> (\<Union>y\<in>set years. {v @ sm @ y, sm @ v @ y}))
               = (\<Union>sm\<in>set symbols. {v @ sm, sm @ v, v @ sm @ sm})
                   \<union> (\<Union>sm\<in>set symbols. \<Union>y\<in>set years. {v @ sm @ y, sm @ v @ y})"
        by (rule UN_Un_distrib)
      from False \<open>v \<noteq> []\<close> show ?thesis
        unfolding spec_patterns_def y d by (simp add: Un_assoc)
    qed
  qed
  have e: "set (apply_patterns iter words years) = (\<Union>v\<in>set words. spec_patterns v years)"
    unfolding set_apply_patterns [OF assms(1)] using v by (intro SUP_cong) auto
  have "v \<in> spec_patterns v years" for v by (simp add: spec_patterns_def)
  with e show ?thesis by auto
qed

theorem apply_patterns_spec_witness:
  "set (apply_patterns rev [''ab''] [''19'']) = spec_patterns ''ab'' [''19'']
   \<and> ''ab'' \<in> set (apply_patterns rev [''ab''] [''19''])
   \<and> ''ab!19'' \<in> set (apply_patterns rev [''ab''] [''19''])"
proof -
  have "[] \<notin> set [''ab'']" and "[] \<notin> set [''19'']" by simp_all
  from apply_patterns_spec [OF valid_iter_rev this]
  show ?thesis by (simp add: spec_patterns_def symbols_def)
qed

subsection \<open>Classification of the seeds\<close>

text \<open>C7: the words returned by \<open>_clean_seeds\<close> are the non-empty cleaned tokens
  (the stripped seed without the characters outside \<open>[a-zA-Z0-9]\<close>) that are not made
  of digits only, the numbers are those made of digits only, each list in the order of
  the seeds; a mixed token such as abc123 is one word.\<close>

theorem clean_seeds_classifies:
  "clean_seeds seeds =
     ([c \<leftarrow> map cleaned_token seeds. c \<noteq> [] \<and> \<not> list_all (\<lambda>ch. ch \<in> set digits) c],
      [c \<leftarrow> map cleaned_token seeds. c \<noteq> [] \<and> list_all (\<lambda>ch. ch \<in> set digits) c])
   \<and> cleaned_token seed
       = filter (\<lambda>ch. ch \<in> set (ascii_lowercase @ ascii_uppercase @ digits)) (strip seed)
   \<and> clean_seeds [''abc123'', '' 19-97 '', ''  ''] = ([''abc123''], [''1997''])"
proof -
  have f: "(\<lambda>c. c \<noteq> [] \<and> isdigit c) = (\<lambda>c. c \<noteq> [] \<and> list_all (\<lambda>ch. ch \<in> set digits) c)"
    and g: "(\<lambda>c. c \<noteq> [] \<and> \<not> isdigit c) = (\<lambda>c. c \<noteq> [] \<and> \<not> list_all (\<lambda>ch. ch \<in> set digits) c)"
    by (auto simp: isdigit_def)
  have 1: "clean_seeds seeds =
     ([c \<leftarrow> map cleaned_token seeds. c \<noteq> [] \<and> \<not> list_all (\<lambda>ch. ch \<in> set digits) c],
      [c \<leftarrow> map cleaned_token seeds. c \<noteq> [] \<and> list_all (\<lambda>ch. ch \<in> set digits) c])"
    unfolding clean_seeds_eq f g ..
  have 2: "clean_seeds [''abc123'', '' 19-97 '', ''  ''] = ([''abc123''], [''1997''])"
    by (simp add: clean_seeds_eq cleaned_token_def strip_def re_sub_non_alnum_def isdigit_def
        whitespace_def ascii_lowercase_def ascii_uppercase_def digits_def)
  from 1 2 show ?thesis by (simp add: cleaned_token_def re_sub_non_alnum_def)
qed

subsection \<open>Stems and variations\<close>

lemma set_stem_word:
  "valid_iter iter \<Longrightarrow>
     set (stem_word iter stemmer word) =
       insert word (case stemmer of
                      None \<Rightarrow> {}
                    | Some stem_fn \<Rightarrow>
                        if isalpha word \<and> stem_fn (lower word) \<noteq> []
                           \<and> stem_fn (lower word) \<noteq> lower word
                        then {stem_fn (lower word)} else {})"
  by (auto simp: stem_word_def valid_iter_set Let_def set_set_add split: option.splits)

lemma set_word_variations:
  "valid_iter iter \<Longrightarrow>
     set (word_variations iter stemmer clean_words) =
       (\<Union>w\<in>set clean_words. \<Union>base\<in>set (stem_word iter stemmer w).
           set (apply_leet iter base) \<union> {lower base, capitalize base, upper base})"
  by (simp add: word_variations_def valid_iter_set)

lemma word_variations_iter:
  assumes "valid_iter iter" and "valid_iter iter'"
  shows "set (word_variations iter stemmer clean_words)
           = set (word_variations iter' stemmer clean_words)"
  by (simp only: set_word_variations [OF assms(1)] set_word_variations [OF assms(2)]
      set_stem_word [OF assms(1)] set_stem_word [OF assms(2)]
      set_apply_leet [OF assms(1)] set_apply_leet [OF assms(2)])

lemma apply_patterns_iter:
  assumes "valid_iter iter" and "valid_iter iter'" and "set words = set words'"
  shows "set (apply_patterns iter words years) = set (apply_patterns iter' words' years)"
  by (simp only: set_apply_patterns [OF assms(1)] set_apply_patterns [OF assms(2)] assms(3))

subsection \<open>Combinations and suffixes\<close>

lemma set_combo_step: "set (combo_step w num final) = set final \<union> {w @ num, num @ w}"
  by (auto simp: combo_step_def set_set_add)

lemma set_number_combos:
  "set (number_combos variations clean_numbers final) =
     set final \<union> (\<Union>w\<in>set variations. \<Union>num\<in>set clean_numbers. {w @ num, num @ w})"
  unfolding number_combos_def
  by (rule set_fold_union) (rule set_fold_union [OF set_combo_step])

lemma distinct_number_combos:
  "distinct final \<Longrightarrow> distinct (number_combos variations clean_numbers final)"
  by (simp add: number_combos_def combo_step_def [abs_def] distinct_fold distinct_set_add)

lemma set_suffix_step:
  "set (suffix_step max_len w suf final) =
     set final \<union> (if int (length (w @ suf)) \<le> max_len then {w @ suf} else {})"
  by (simp add: suffix_step_def Let_def set_set_add)

lemma set_add_suffixes:
  "valid_iter iter \<Longrightarrow>
     set (add_suffixes iter max_len final) =
       set final \<union> (\<Union>w\<in>set final. \<Union>suf\<in>set common_suffixes.
                       if int (length (w @ suf)) \<le> max_len then {w @ suf} else {})"
proof -
  assume v: "valid_iter iter"
  have "set (fold (\<lambda>w. fold (suffix_step max_len w) common_suffixes) ws s) =
        set s \<union> (\<Union>w\<in>set ws. \<Union>suf\<in>set common_suffixes.
                       if int (length (w @ suf)) \<le> max_len then {w @ suf} else {})" for ws s
    by (rule set_fold_union) (rule set_fold_union [OF set_suffix_step])
  then show ?thesis by (simp only: add_suffixes_def valid_iter_set [OF v])
qed

lemma distinct_add_suffixes:
  "distinct final \<Longrightarrow> distinct (add_suffixes iter max_len final)"
  by (simp add: add_suffixes_def suffix_step_def [abs_def] Let_def distinct_fold distinct_set_add)

subsection \<open>The candidate set and the output\<close>

lemma set_final_candidates:
  assumes "valid_iter iter" and "clean_seeds seeds = (clean_words, clean_numbers)"
  shows "set (final_candidates iter stemmer max_len seeds) =
     (let V = set (word_variations iter stemmer clean_words);
          N = set clean_numbers;
          B = (\<Union>w\<in>V. \<Union>num\<in>N. {w @ num, num @ w})
              \<union> set (apply_patterns iter (word_variations iter stemmer clean_words) clean_numbers)
              \<union> N \<union> V
      in B \<union> (\<Union>w\<in>B. \<Union>suf\<in>set common_suffixes.
                  if int (length (w @ suf)) \<le> max_len then {w @ suf} else {}))"
proof -
  let ?vs = "word_variations iter stemmer clean_words"
  let ?f = "fold set_add ?vs (fold set_add clean_numbers
             (fold set_add (apply_patterns iter ?vs clean_numbers)
               (number_combos ?vs clean_numbers [])))"
  have f: "final_candidates iter stemmer max_len seeds = add_suffixes iter max_len ?f"
    by (simp add: final_candidates_def assms(2) Let_def)
  have s: "set ?f = (\<Union>w\<in>set ?vs. \<Union>num\<in>set clean_numbers. {w @ num, num @ w})
              \<union> set (apply_patterns iter ?vs clean_numbers)
              \<union> set clean_numbers \<union> set ?vs"
    by (simp only: set_fold_set_add set_number_combos) auto
  show ?thesis
    by (simp only: f set_add_suffixes [OF assms(1)] Let_def s)
qed

lemma distinct_final_candidates: "distinct (final_candidates iter stemmer max_len seeds)"
  by (cases "clean_seeds seeds")
     (simp add: final_candidates_def Let_def distinct_add_suffixes distinct_fold_set_add
        distinct_number_combos)

lemma final_candidates_iter:
  assumes "valid_iter iter" and "valid_iter iter'"
  shows "set (final_candidates iter stemmer max_len seeds)
           = set (final_candidates iter' stemmer max_len seeds)"
proof (cases "clean_seeds seeds")
  case (Pair clean_words clean_numbers)
  have v: "set (word_variations iter stemmer clean_words)
             = set (word_variations iter' stemmer clean_words)"
    using assms by (rule word_variations_iter)
  have p: "set (apply_patterns iter (word_variations iter stemmer clean_words) clean_numbers)
             = set (apply_patterns iter' (word_variations iter' stemmer clean_words) clean_numbers)"
    using assms v by (rule apply_patterns_iter)
  show ?thesis
    by (simp only: set_final_candidates [OF assms(1) Pair] set_final_candidates [OF assms(2) Pair] v p)
qed

lemma set_generate_wordlist:
  "valid_iter iter \<Longrightarrow>
     set (generate_wordlist iter stemmer seeds opts) =
       {w \<in> set (final_candidates iter stemmer (max_len_of opts) seeds).
          3 \<le> int (length w) \<and> int (length w) \<le> max_len_of opts \<and> \<not> isspace w}"
  by (simp add: generate_wordlist_def Let_def valid_iter_set)

lemma distinct_generate_wordlist:
  "valid_iter iter \<Longrightarrow> distinct (generate_wordlist iter stemmer seeds opts)"
  by (simp add: generate_wordlist_def Let_def valid_iter_distinct distinct_final_candidates)

lemma sorted_generate_wordlist: "sorted (generate_wordlist iter stemmer seeds opts)"
  by (simp add: generate_wordlist_def Let_def)

lemma sort_cong_set:
  fixes xs ys :: "string list"
  assumes "distinct xs" and "distinct ys" and "set xs = set ys"
  shows "sort xs = sort ys"
proof -
  have "mset xs = mset ys" using assms by (simp add: set_eq_iff_mset_eq_distinct)
  then have "mset (sort ys) = mset xs" by simp
  then show ?thesis by (rule properties_for_sort) simp
qed

subsection \<open>Character classes\<close>

lemma lower_char_cases: "lower_char c = c \<or> lower_char c \<in> set ascii_lowercase"
proof (cases "map_of (zip ascii_uppercase ascii_lowercase) c")
  case None
  then show ?thesis by (simp add: lower_char_def)
next
  case (Some d)
  then have "(c, d) \<in> set (zip ascii_uppercase ascii_lowercase)" by (rule map_of_SomeD)
  then have "d \<in> set ascii_lowercase" by (rule set_zip_rightD)
  with Some show ?thesis by (simp add: lower_char_def)
qed

lemma upper_char_cases: "upper_char c = c \<or> upper_char c \<in> set ascii_uppercase"
proof (cases "map_of (zip ascii_lowercase ascii_uppercase) c")
  case None
  then show ?thesis by (simp add: upper_char_def)
next
  case (Some d)
  then have "(c, d) \<in> set (zip ascii_lowercase ascii_uppercase)" by (rule map_of_SomeD)
  then have "d \<in> set ascii_uppercase" by (rule set_zip_rightD)
  with Some show ?thesis by (simp add: upper_char_def)
qed

lemma lower_char_alnum:
  "c \<in> set (ascii_lowercase @ ascii_uppercase @ digits)
     \<Longrightarrow> lower_char c \<in> set (ascii_lowercase @ ascii_uppercase @ digits)"
  using lower_char_cases [of c] by auto

lemma upper_char_alnum:
  "c \<in> set (ascii_lowercase @ ascii_uppercase @ digits)
     \<Longrightarrow> upper_char c \<in> set (ascii_lowercase @ ascii_uppercase @ digits)"
  using upper_char_cases [of c] by auto

lemma lower_alnum:
  "set s \<subseteq> set (ascii_lowercase @ ascii_uppercase @ digits)
     \<Longrightarrow> set (lower s) \<subseteq> set (ascii_lowercase @ ascii_uppercase @ digits)"
  unfolding lower_def using lower_char_alnum by (induction s) simp_all

lemma upper_alnum:
  "set s \<subseteq> set (ascii_lowercase @ ascii_uppercase @ digits)
     \<Longrightarrow> set (upper s) \<subseteq> set (ascii_lowercase @ ascii_uppercase @ digits)"
  unfolding upper_def using upper_char_alnum by (induction s) simp_all

lemma capitalize_alnum:
  assumes "set s \<subseteq> set (ascii_lowercase @ ascii_uppercase @ digits)"
  shows "set (capitalize s) \<subseteq> set (ascii_lowercase @ ascii_uppercase @ digits)"
proof (cases s)
  case Nil
  then show ?thesis by simp
next
  case (Cons c cs)
  have "set (lower cs) \<subseteq> set (ascii_lowercase @ ascii_uppercase @ digits)"
    using assms Cons by (intro lower_alnum) simp
  moreover have "upper_char c \<in> set (ascii_lowercase @ ascii_uppercase @ digits)"
    using assms Cons by (intro upper_char_alnum) simp
  ultimately show ?thesis using Cons by (simp add: lower_def)
qed

lemma lower_char_digit: "c \<in> set digits \<Longrightarrow> lower_char c = c"
  unfolding digits_def lower_char_def ascii_uppercase_def ascii_lowercase_def
  by (elim disjE | simp)+

lemma lower_isdigit: "isdigit s \<Longrightarrow> lower s = s"
  by (simp add: isdigit_def lower_def list_all_iff map_idI lower_char_digit)

lemma whitespace_not_allowed:
  "c \<in> set whitespace
     \<Longrightarrow> c \<notin> set (ascii_lowercase @ ascii_uppercase @ digits @ concat symbols)"
  unfolding whitespace_def ascii_lowercase_def ascii_uppercase_def digits_def symbols_def
  by (elim disjE | simp)+

lemma allowed_not_whitespace:
  "c \<in> set (ascii_lowercase @ ascii_uppercase @ digits @ concat symbols) \<Longrightarrow> c \<notin> set whitespace"
  using whitespace_not_allowed by blast

lemma allowed_not_isspace:
  "set s \<subseteq> set (ascii_lowercase @ ascii_uppercase @ digits @ concat symbols) \<Longrightarrow> \<not> isspace s"
proof (cases s)
  case Nil
  then show ?thesis by (simp add: isspace_def)
next
  case (Cons c cs)
  assume "set s \<subseteq> set (ascii_lowercase @ ascii_uppercase @ digits @ concat symbols)"
  with Cons have "c \<in> set (ascii_lowercase @ ascii_uppercase @ digits @ concat symbols)" by simp
  then have "c \<notin> set whitespace" by (rule allowed_not_whitespace)
  with Cons show ?thesis by (simp add: isspace_def)
qed

lemma cleaned_token_alnum:
  "set (cleaned_token seed) \<subseteq> set (ascii_lowercase @ ascii_uppercase @ digits)"
  by (auto simp: cleaned_token_def re_sub_non_alnum_def)

lemma length_lower: "length (lower s) = length s"
  by (simp add: lower_def)

subsection \<open>Baseline seeds\<close>

lemma word_in_stem_word: "valid_iter iter \<Longrightarrow> word \<in> set (stem_word iter stemmer word)"
  by (simp add: set_stem_word)

lemma lower_in_word_variations:
  "valid_iter iter \<Longrightarrow> w \<in> set clean_words
     \<Longrightarrow> lower w \<in> set (word_variations iter stemmer clean_words)"
  using word_in_stem_word [of iter w stemmer] by (auto simp: set_word_variations)

lemma variations_in_final:
  assumes "valid_iter iter" and "clean_seeds seeds = (clean_words, clean_numbers)"
  shows "set (word_variations iter stemmer clean_words) \<union> set clean_numbers
           \<subseteq> set (final_candidates iter stemmer max_len seeds)"
  by (simp only: set_final_candidates [OF assms] Let_def) blast

lemma lower_cleaned_in_final:
  assumes "valid_iter iter" and "seed \<in> set seeds" and "cleaned_token seed \<noteq> []"
  shows "lower (cleaned_token seed) \<in> set (final_candidates iter stemmer max_len seeds)"
proof (cases "isdigit (cleaned_token seed)")
  case True
  let ?ns = "[c \<leftarrow> map cleaned_token seeds. c \<noteq> [] \<and> isdigit c]"
  have "cleaned_token seed \<in> set ?ns" using assms True by simp
  moreover have "set ?ns \<subseteq> set (final_candidates iter stemmer max_len seeds)"
    using variations_in_final [OF assms(1) clean_seeds_eq] by simp
  ultimately show ?thesis using True by (auto simp: lower_isdigit)
next
  case False
  let ?ws = "[c \<leftarrow> map cleaned_token seeds. c \<noteq> [] \<and> \<not> isdigit c]"
  have "cleaned_token seed \<in> set ?ws" using assms False by simp
  with assms(1) have "lower (cleaned_token seed) \<in> set (word_variations iter stemmer ?ws)"
    by (rule lower_in_word_variations)
  moreover have "set (word_variations iter stemmer ?ws)
                   \<subseteq> set (final_candidates iter stemmer max_len seeds)"
    using variations_in_final [OF assms(1) clean_seeds_eq] by simp
  ultimately show ?thesis by auto
qed

lemma lower_cleaned_not_isspace: "\<not> isspace (lower (cleaned_token seed))"
proof -
  have "set (lower (cleaned_token seed)) \<subseteq> set (ascii_lowercase @ ascii_uppercase @ digits)"
    using cleaned_token_alnum by (rule lower_alnum)
  then have "set (lower (cleaned_token seed))
               \<subseteq> set (ascii_lowercase @ ascii_uppercase @ digits @ concat symbols)"
    by auto
  then show ?thesis by (rule allowed_not_isspace)
qed

lemma lower_cleaned_in_output:
  assumes "valid_iter iter" and "seed \<in> set seeds"
    and "3 \<le> int (length (cleaned_token seed))"
    and "int (length (cleaned_token seed)) \<le> max_len_of opts"
  shows "lower (cleaned_token seed) \<in> set (generate_wordlist iter stemmer seeds opts)"
proof -
  have "cleaned_token seed \<noteq> []" using assms(3) by auto
  with assms(1,2)
  have "lower (cleaned_token seed) \<in> set (final_candidates iter stemmer (max_len_of opts) seeds)"
    by (rule lower_cleaned_in_final)
  then show ?thesis
    using assms(3,4) lower_cleaned_not_isspace [of seed]
    by (simp add: set_generate_wordlist [OF assms(1)] length_lower)
qed

lemma cleaned_token_xyz: "cleaned_token ''xyz'' = ''xyz''" and lower_xyz: "lower ''xyz'' = ''xyz''"
  by (simp_all add: cleaned_token_def strip_def re_sub_non_alnum_def whitespace_def
      ascii_lowercase_def ascii_uppercase_def digits_def lower_def lower_char_def)

lemma xyz_in_output_at_zero:
  "''xyz'' \<in> set (generate_wordlist id None [''xyz''] \<lparr>opt_length = Some 0, opt_rules = None\<rparr>)"
  using lower_cleaned_in_output [OF valid_iter_id, of "''xyz''" "[''xyz'']"
      "\<lparr>opt_length = Some 0, opt_rules = None\<rparr>" None]
  by (simp add: cleaned_token_xyz lower_xyz max_len_of_def get_length_def)

lemma no_seeds_no_output:
  assumes "valid_iter iter" and "clean_seeds seeds = ([], [])"
  shows "generate_wordlist iter stemmer seeds opts = []"
  using assms
  by (simp add: generate_wordlist_def final_candidates_def Let_def word_variations_def
      apply_patterns_def number_combos_def add_suffixes_def valid_iter_Nil)

subsection \<open>The claims on the output of \<open>generate_wordlist\<close>\<close>

text \<open>C1, as the code has it: every string of the output has at least 3 characters
  and at most \<open>max_len\<close> characters, where \<open>max_len\<close> is the \<open>length\<close> of the
  options (12 when none is supplied) unless that is 0, and 12 when it is 0.\<close>

theorem candidate_length_bounds:
  assumes "valid_iter iter" and "c \<in> set (generate_wordlist iter stemmer seeds opts)"
  shows "3 \<le> int (length c)
         \<and> int (length c) \<le> (if get_length opts = 0 then 12 else get_length opts)"
  using assms(2) by (simp add: set_generate_wordlist [OF assms(1)] max_len_of_def)

theorem candidate_length_bounds_witness:
  "''xyz'' \<in> set (generate_wordlist id None [''xyz''] \<lparr>opt_length = Some 0, opt_rules = None\<rparr>)
   \<and> (3 \<le> int (length ''xyz'')
      \<and> int (length ''xyz'')
          \<le> (if get_length \<lparr>opt_length = Some 0, opt_rules = None\<rparr> = 0 then 12
              else get_length \<lparr>opt_length = Some 0, opt_rules = None\<rparr>))"
  using candidate_length_bounds [OF valid_iter_id xyz_in_output_at_zero] xyz_in_output_at_zero
  by blast

text \<open>C1 as stated fails when the options hold the length 0: the output then has
  strings longer than 0.\<close>

theorem candidate_length_counterexample:
  "''xyz'' \<in> set (generate_wordlist id None [''xyz''] \<lparr>opt_length = Some 0, opt_rules = None\<rparr>)
   \<and> \<not> int (length ''xyz'') \<le> get_length \<lparr>opt_length = Some 0, opt_rules = None\<rparr>"
  using xyz_in_output_at_zero by (simp add: get_length_def)

text \<open>C2: the output has no duplicates and is strictly ascending in the lexicographic
  order of strings.\<close>

theorem output_strictly_ascending:
  assumes "valid_iter iter"
  shows "distinct (generate_wordlist iter stemmer seeds opts)
         \<and> sorted_wrt (<) (generate_wordlist iter stemmer seeds opts)"
  using distinct_generate_wordlist [OF assms] sorted_generate_wordlist
  by (simp add: strict_sorted_iff)

theorem output_strictly_ascending_witness:
  "distinct (generate_wordlist rev None [''bob'', ''7''] \<lparr>opt_length = Some 4, opt_rules = None\<rparr>)
   \<and> sorted_wrt (<)
        (generate_wordlist rev None [''bob'', ''7''] \<lparr>opt_length = Some 4, opt_rules = None\<rparr>)"
  by (rule output_strictly_ascending [OF valid_iter_rev])

text \<open>C3: a seed of the list whose cleaned token is not empty and whose lowercase
  form has between 3 and \<open>options.length\<close> characters (12 when no length is supplied)
  has that lowercase form in the output.\<close>

theorem baseline_survival:
  assumes "valid_iter iter" and "seed \<in> set seeds" and "cleaned_token seed \<noteq> []"
    and "3 \<le> int (length (lower (cleaned_token seed)))"
    and "int (length (lower (cleaned_token seed))) \<le> get_length opts"
  shows "lower (cleaned_token seed) \<in> set (generate_wordlist iter stemmer seeds opts)"
proof -
  have "get_length opts \<noteq> 0" using assms(4,5) by auto
  then have "max_len_of opts = get_length opts" by (simp add: max_len_of_def)
  with assms show ?thesis by (intro lower_cleaned_in_output) (simp_all add: length_lower)
qed

theorem baseline_survival_witness:
  "''alice'' \<in> set (generate_wordlist rev None ['' Al-ice'', ''1997'']
                      \<lparr>opt_length = None, opt_rules = None\<rparr>)
   \<and> ''1997'' \<in> set (generate_wordlist rev None ['' Al-ice'', ''1997'']
                      \<lparr>opt_length = Some 4, opt_rules = None\<rparr>)"
proof -
  have a: "cleaned_token '' Al-ice'' = ''Alice''" and b: "lower ''Alice'' = ''alice''"
    and c: "cleaned_token ''1997'' = ''1997''" and d: "lower ''1997'' = ''1997''"
    by (simp_all add: cleaned_token_def strip_def re_sub_non_alnum_def whitespace_def
        ascii_lowercase_def ascii_uppercase_def digits_def lower_def lower_char_def)
  show ?thesis
    using baseline_survival [OF valid_iter_rev, of "'' Al-ice''" "['' Al-ice'', ''1997'']"
              "\<lparr>opt_length = None, opt_rules = None\<rparr>" None]
          baseline_survival [OF valid_iter_rev, of "''1997''" "['' Al-ice'', ''1997'']"
              "\<lparr>opt_length = Some 4, opt_rules = None\<rparr>" None]
    by (simp add: a b c d get_length_def)
qed

text \<open>C4, as the code has it: when the \<open>length\<close> of the options is below 3 and is
  not 0, the output is empty, whatever the seeds. (The length 0 is replaced by 12.)\<close>

theorem short_length_empty:
  assumes "valid_iter iter" and "get_length opts < 3" and "get_length opts \<noteq> 0"
  shows "generate_wordlist iter stemmer seeds opts = []"
proof -
  have "max_len_of opts < 3" using assms(2,3) by (simp add: max_len_of_def)
  then have "set (generate_wordlist iter stemmer seeds opts) = {}"
    by (auto simp: set_generate_wordlist [OF assms(1)])
  then show ?thesis by simp
qed

theorem short_length_empty_witness:
  "generate_wordlist rev None [''alice'', ''1997''] \<lparr>opt_length = Some 2, opt_rules = None\<rparr> = []
   \<and> generate_wordlist rev None [''alice'', ''1997''] \<lparr>opt_length = Some (- 1), opt_rules = None\<rparr> = []"
  using short_length_empty [OF valid_iter_rev, of "\<lparr>opt_length = Some 2, opt_rules = None\<rparr>"
          None "[''alice'', ''1997'']"]
        short_length_empty [OF valid_iter_rev, of "\<lparr>opt_length = Some (- 1), opt_rules = None\<rparr>"
          None "[''alice'', ''1997'']"]
  by (simp add: get_length_def)

text \<open>C4 as stated fails at the length 0, for which the output is not empty.\<close>

theorem zero_length_counterexample:
  "get_length \<lparr>opt_length = Some 0, opt_rules = None\<rparr> < 3
   \<and> generate_wordlist id None [''xyz''] \<lparr>opt_length = Some 0, opt_rules = None\<rparr> \<noteq> []"
  using xyz_in_output_at_zero by (auto simp: get_length_def)

text \<open>C8: when the list of seeds is empty, or every seed is empty after \<open>strip\<close> or
  after the removal of the characters outside \<open>[a-zA-Z0-9]\<close>, the output is the
  empty list, for every \<open>options\<close>. (No branch of the generator raises.)\<close>

theorem discarded_seeds_empty:
  assumes "valid_iter iter"
    and "\<forall>seed\<in>set seeds. strip seed = [] \<or> re_sub_non_alnum (strip seed) = []"
  shows "generate_wordlist iter stemmer seeds opts = []"
proof -
  have "\<forall>seed\<in>set seeds. cleaned_token seed = []"
    using assms(2) by (auto simp: cleaned_token_def re_sub_non_alnum_def)
  then have "clean_seeds seeds = ([], [])"
    by (simp add: clean_seeds_eq filter_empty_conv)
  with assms(1) show ?thesis by (rule no_seeds_no_output)
qed

theorem discarded_seeds_empty_witness:
  "generate_wordlist rev None [] \<lparr>opt_length = Some 12, opt_rules = None\<rparr> = []
   \<and> generate_wordlist rev None [''  '', '' !-? '', ''''] \<lparr>opt_length = None, opt_rules = None\<rparr> = []"
proof -
  have "\<forall>seed\<in>set [''  '', '' !-? '', '''']. strip seed = [] \<or> re_sub_non_alnum (strip seed) = []"
    by (simp add: strip_def re_sub_non_alnum_def whitespace_def
        ascii_lowercase_def ascii_uppercase_def digits_def)
  from discarded_seeds_empty [OF valid_iter_rev this]
       discarded_seeds_empty [OF valid_iter_rev, of "[]"]
  show ?thesis by simp
qed

text \<open>C9: the output is a function of the seeds and the options alone (and of the
  stemmer, which is fixed when the module is loaded): two calls with the same arguments
  return the same list, whatever the orders in which the two calls iterate over their
  sets.\<close>

theorem generate_wordlist_deterministic:
  assumes "valid_iter iter" and "valid_iter iter'"
  shows "generate_wordlist iter stemmer seeds opts = generate_wordlist iter' stemmer seeds opts"
proof -
  let ?P = "\<lambda>w. 3 \<le> int (length w) \<and> int (length w) \<le> max_len_of opts \<and> \<not> isspace w"
  let ?xs = "iter (filter ?P (iter (final_candidates iter stemmer (max_len_of opts) seeds)))"
  let ?ys = "iter' (filter ?P (iter' (final_candidates iter' stemmer (max_len_of opts) seeds)))"
  have 1: "distinct ?xs" using assms(1) by (simp add: valid_iter_distinct distinct_final_candidates)
  have 2: "distinct ?ys" using assms(2) by (simp add: valid_iter_distinct distinct_final_candidates)
  have 3: "set ?xs = set ?ys"
    using final_candidates_iter [OF assms, of stemmer "max_len_of opts" seeds]
    by (simp add: valid_iter_set assms)
  have "sort ?xs = sort ?ys" using 1 2 3 by (rule sort_cong_set)
  then show ?thesis by (simp add: generate_wordlist_def Let_def)
qed

theorem generate_wordlist_deterministic_witness:
  "generate_wordlist id None [''bob'', ''1997''] \<lparr>opt_length = Some 8, opt_rules = None\<rparr>
     = generate_wordlist rev None [''bob'', ''1997''] \<lparr>opt_length = Some 8, opt_rules = None\<rparr>"
  by (rule generate_wordlist_deterministic [OF valid_iter_id valid_iter_rev])

subsection \<open>The characters of the candidates\<close>

lemma leet_options_chars:
  "op \<in> set (leet_options c) \<Longrightarrow> set op \<subseteq> insert c (set ''a@4e3i1!o0s$5t7'')"
  by (auto simp: leet_options_def LEET_MAP_def split: if_splits)

lemma leet_chars_allowed:
  "set ''a@4e3i1!o0s$5t7'' \<subseteq> set (ascii_lowercase @ ascii_uppercase @ digits @ concat symbols)"
  by (simp add: ascii_lowercase_def ascii_uppercase_def digits_def symbols_def)

lemma symbols_allowed:
  "sm \<in> set symbols \<Longrightarrow> set sm \<subseteq> set (ascii_lowercase @ ascii_uppercase @ digits @ concat symbols)"
  by auto

lemma underscore_allowed:
  "CHR ''_'' \<in> set (ascii_lowercase @ ascii_uppercase @ digits @ concat symbols)"
  by (simp add: symbols_def)

lemma common_suffixes_allowed:
  "suf \<in> set common_suffixes
     \<Longrightarrow> set suf \<subseteq> set (ascii_lowercase @ ascii_uppercase @ digits @ concat symbols)"
  unfolding common_suffixes_def ascii_lowercase_def ascii_uppercase_def digits_def symbols_def
  by (elim disjE | simp)+

lemma apply_leet_chars:
  assumes "valid_iter iter" and "set base \<subseteq> set (ascii_lowercase @ ascii_uppercase @ digits)"
    and "v \<in> set (apply_leet iter base)"
  shows "set v \<subseteq> set (ascii_lowercase @ ascii_uppercase @ digits @ concat symbols)"
proof -
  let ?A = "set (ascii_lowercase @ ascii_uppercase @ digits @ concat symbols)"
  have l: "set (lower base) \<subseteq> ?A" using lower_alnum [OF assms(2)] by auto
  have o: "\<forall>c\<in>set (lower base). \<forall>op\<in>set (leet_options c). set op \<subseteq> ?A"
  proof (intro ballI)
    fix c op assume "c \<in> set (lower base)" and "op \<in> set (leet_options c)"
    then have "c \<in> ?A" and "set op \<subseteq> insert c (set ''a@4e3i1!o0s$5t7'')"
      using l leet_options_chars by blast+
    then show "set op \<subseteq> ?A" using leet_chars_allowed by blast
  qed
  have "\<forall>v\<in>set (leet_loop (lower base) ['''']). set v \<subseteq> ?A"
    by (rule leet_loop_chars [OF _ o]) simp
  moreover have "v \<in> set (leet_loop (lower base) [''''])"
    using assms(1,3) by (simp add: set_apply_leet split: if_splits)
  ultimately show ?thesis by blast
qed

lemma apply_patterns_chars:
  assumes "valid_iter iter"
    and "\<forall>w\<in>set words. set w \<subseteq> A" and "\<forall>y\<in>set years. set y \<subseteq> A"
    and "\<forall>sm\<in>set symbols. set sm \<subseteq> A" and "CHR ''_'' \<in> A"
    and "x \<in> set (apply_patterns iter words years)"
  shows "set x \<subseteq> A"
proof -
  from assms(6) obtain word where w: "word \<in> set words" "word \<noteq> []"
    and x: "x = word
          \<or> (\<exists>y\<in>set years. x \<in> {word @ y, word @ ''_'' @ y, y @ word})
          \<or> (\<exists>sm\<in>set symbols. x \<in> {word @ sm, sm @ word, word @ sm @ sm}
                  \<or> (\<exists>y\<in>set years. x \<in> {word @ sm @ y, sm @ word @ y}))"
    unfolding set_apply_patterns [OF assms(1)] by (auto split: if_splits)
  have ww: "set word \<subseteq> A" using w assms(2) by blast
  from x show ?thesis
  proof (elim disjE bexE)
    assume "x = word"
    with ww show ?thesis by simp
  next
    fix y assume "y \<in> set years" and "x \<in> {word @ y, word @ ''_'' @ y, y @ word}"
    moreover from this have "set y \<subseteq> A" using assms(3) by blast
    ultimately show ?thesis using ww assms(5) by auto
  next
    fix sm assume "sm \<in> set symbols" and "x \<in> {word @ sm, sm @ word, word @ sm @ sm}"
    moreover from this have "set sm \<subseteq> A" using assms(4) by blast
    ultimately show ?thesis using ww by auto
  next
    fix sm y assume "sm \<in> set symbols" and "y \<in> set years"
      and "x \<in> {word @ sm @ y, sm @ word @ y}"
    moreover from this have "set sm \<subseteq> A" and "set y \<subseteq> A" using assms(3,4) by blast+
    ultimately show ?thesis using ww by auto
  qed
qed

lemma clean_seeds_alnum:
  assumes "clean_seeds seeds = (clean_words, clean_numbers)"
    and "x \<in> set clean_words \<union> set clean_numbers"
  shows "set x \<subseteq> set (ascii_lowercase @ ascii_uppercase @ digits)"
proof -
  from assms have "x \<in> cleaned_token ` set seeds"
    unfolding clean_seeds_eq by auto
  then show ?thesis using cleaned_token_alnum by blast
qed

lemma stem_word_alnum:
  assumes "valid_iter iter"
    and "\<forall>stem_fn w. stemmer = Some stem_fn \<longrightarrow> isalpha w
           \<longrightarrow> set (stem_fn (lower w)) \<subseteq> set (ascii_lowercase @ ascii_uppercase @ digits)"
    and "set word \<subseteq> set (ascii_lowercase @ ascii_uppercase @ digits)"
    and "base \<in> set (stem_word iter stemmer word)"
  shows "set base \<subseteq> set (ascii_lowercase @ ascii_uppercase @ digits)"
proof (cases stemmer)
  case None
  with assms(1,3,4) show ?thesis by (simp add: set_stem_word)
next
  case (Some stem_fn)
  with assms(1,4) have "base = word \<or> (isalpha word \<and> base = stem_fn (lower word))"
    by (auto simp: set_stem_word split: if_splits)
  then show ?thesis using assms(2) Some assms(3) by blast
qed

lemma word_variations_chars:
  assumes "valid_iter iter"
    and "\<forall>stem_fn w. stemmer = Some stem_fn \<longrightarrow> isalpha w
           \<longrightarrow> set (stem_fn (lower w)) \<subseteq> set (ascii_lowercase @ ascii_uppercase @ digits)"
    and "\<forall>w\<in>set clean_words. set w \<subseteq> set (ascii_lowercase @ ascii_uppercase @ digits)"
    and "v \<in> set (word_variations iter stemmer clean_words)"
  shows "set v \<subseteq> set (ascii_lowercase @ ascii_uppercase @ digits @ concat symbols)"
proof -
  from assms(4) obtain w base where w: "w \<in> set clean_words"
    and b: "base \<in> set (stem_word iter stemmer w)"
    and v: "v \<in> set (apply_leet iter base) \<or> v = lower base \<or> v = capitalize base \<or> v = upper base"
    unfolding set_word_variations [OF assms(1)] by auto
  have a: "set base \<subseteq> set (ascii_lowercase @ ascii_uppercase @ digits)"
    using assms(1,2) _ b by (rule stem_word_alnum) (use w assms(3) in blast)
  from v show ?thesis
  proof (elim disjE)
    assume "v \<in> set (apply_leet iter base)"
    with assms(1) a show ?thesis by (rule apply_leet_chars)
  next
    assume "v = lower base"
    with lower_alnum [OF a] show ?thesis by auto
  next
    assume "v = capitalize base"
    with capitalize_alnum [OF a] show ?thesis by auto
  next
    assume "v = upper base"
    with upper_alnum [OF a] show ?thesis by auto
  qed
qed

lemma final_candidates_chars:
  assumes "valid_iter iter"
    and "\<forall>stem_fn w. stemmer = Some stem_fn \<longrightarrow> isalpha w
           \<longrightarrow> set (stem_fn (lower w)) \<subseteq> set (ascii_lowercase @ ascii_uppercase @ digits)"
    and "x \<in> set (final_candidates iter stemmer max_len seeds)"
  shows "set x \<subseteq> set (ascii_lowercase @ ascii_uppercase @ digits @ concat symbols)"
proof -
  define A where "A = set (ascii_lowercase @ ascii_uppercase @ digits @ concat symbols)"
  obtain clean_words clean_numbers where cs: "clean_seeds seeds = (clean_words, clean_numbers)"
    by (cases "clean_seeds seeds")
  let ?vs = "word_variations iter stemmer clean_words"
  let ?B = "(\<Union>w\<in>set ?vs. \<Union>num\<in>set clean_numbers. {w @ num, num @ w})
              \<union> set (apply_patterns iter ?vs clean_numbers) \<union> set clean_numbers \<union> set ?vs"
  have n: "\<forall>y\<in>set clean_numbers. set y \<subseteq> A"
    unfolding A_def using clean_seeds_alnum [OF cs] by fastforce
  have "\<forall>w\<in>set clean_words. set w \<subseteq> set (ascii_lowercase @ ascii_uppercase @ digits)"
    using clean_seeds_alnum [OF cs] by blast
  then have v: "\<forall>w\<in>set ?vs. set w \<subseteq> A"
    unfolding A_def using word_variations_chars [OF assms(1,2)] by blast
  have sy: "\<forall>sm\<in>set symbols. set sm \<subseteq> A"
    unfolding A_def using symbols_allowed by blast
  have u: "CHR ''_'' \<in> A"
    unfolding A_def by (rule underscore_allowed)
  have p: "\<forall>x\<in>set (apply_patterns iter ?vs clean_numbers). set x \<subseteq> A"
    using apply_patterns_chars [OF assms(1) v n sy u] by blast
  have su: "\<forall>suf\<in>set common_suffixes. set suf \<subseteq> A"
    unfolding A_def using common_suffixes_allowed by blast
  have b: "set y \<subseteq> A" if "y \<in> ?B" for y
  proof -
    from that consider
        (combo) w num where "w \<in> set ?vs" "num \<in> set clean_numbers" "y = w @ num \<or> y = num @ w"
      | (other) "y \<in> set (apply_patterns iter ?vs clean_numbers) \<union> set clean_numbers \<union> set ?vs"
      by blast
    then show ?thesis
    proof cases
      case combo
      then have "set w \<subseteq> A" and "set num \<subseteq> A" using v n by blast+
      with combo(3) show ?thesis by auto
    next
      case other
      with p n v show ?thesis by blast
    qed
  qed
  define B where "B = ?B"
  have e: "set (final_candidates iter stemmer max_len seeds) =
             B \<union> (\<Union>w\<in>B. \<Union>suf\<in>set common_suffixes.
                    if int (length (w @ suf)) \<le> max_len then {w @ suf} else {})"
    unfolding B_def by (simp only: set_final_candidates [OF assms(1) cs] Let_def)
  from assms(3) have "x \<in> B \<or> (\<exists>w\<in>B. \<exists>suf\<in>set common_suffixes. x = w @ suf)"
    unfolding e by (auto split: if_splits)
  then have "set x \<subseteq> A"
  proof (elim disjE bexE)
    assume "x \<in> B"
    then show ?thesis unfolding B_def by (rule b)
  next
    fix w suf assume "w \<in> B" and "suf \<in> set common_suffixes" and "x = w @ suf"
    moreover from this have "set w \<subseteq> A" and "set suf \<subseteq> A"
      using b su unfolding B_def by blast+
    ultimately show ?thesis by simp
  qed
  then show ?thesis by (simp only: A_def)
qed

text \<open>C10: every string of the output is made of ASCII letters, digits and the six
  symbols \<open>! @ # $ _ .\<close> only, so it has no whitespace; and no string of the
  candidate set is whitespace only, so the final filter is the filter on the length.
  With NLTK present this rests on the stemmer returning letters and digits only for an
  alphabetic word, as the Porter stemmer does.\<close>

theorem output_characters:
  assumes "valid_iter iter"
    and "\<forall>stem_fn w. stemmer = Some stem_fn \<longrightarrow> isalpha w
           \<longrightarrow> set (stem_fn (lower w)) \<subseteq> set (ascii_lowercase @ ascii_uppercase @ digits)"
  shows "(\<forall>c\<in>set (generate_wordlist iter stemmer seeds opts).
            set c \<subseteq> set (ascii_lowercase @ ascii_uppercase @ digits @ concat symbols)
            \<and> set c \<inter> set whitespace = {})
         \<and> (\<forall>w\<in>set (final_candidates iter stemmer (max_len_of opts) seeds). \<not> isspace w)
         \<and> generate_wordlist iter stemmer seeds opts =
             sort (iter (filter (\<lambda>w. 3 \<le> int (length w) \<and> int (length w) \<le> max_len_of opts)
                     (iter (final_candidates iter stemmer (max_len_of opts) seeds))))"
proof -
  let ?A = "set (ascii_lowercase @ ascii_uppercase @ digits @ concat symbols)"
  let ?final = "final_candidates iter stemmer (max_len_of opts) seeds"
  have f: "\<forall>x\<in>set ?final. set x \<subseteq> ?A"
    using final_candidates_chars [OF assms] by blast
  have 1: "\<forall>c\<in>set (generate_wordlist iter stemmer seeds opts). set c \<subseteq> ?A \<and> set c \<inter> set whitespace = {}"
    using f allowed_not_whitespace by (simp add: set_generate_wordlist [OF assms(1)]) blast
  have 2: "\<forall>w\<in>set ?final. \<not> isspace w"
    using f allowed_not_isspace by blast
  then have "filter (\<lambda>w. 3 \<le> int (length w) \<and> int (length w) \<le> max_len_of opts \<and> \<not> isspace w) (iter ?final)
        = filter (\<lambda>w. 3 \<le> int (length w) \<and> int (length w) \<le> max_len_of opts) (iter ?final)"
    by (intro filter_cong) (auto simp: valid_iter_set [OF assms(1)])
  then have 3: "generate_wordlist iter stemmer seeds opts =
             sort (iter (filter (\<lambda>w. 3 \<le> int (length w) \<and> int (length w) \<le> max_len_of opts)
                     (iter ?final)))"
    by (simp add: generate_wordlist_def Let_def)
  from 1 2 3 show ?thesis by blast
qed

theorem output_characters_witness:
  "''cats'' \<in> set (generate_wordlist rev (Some butlast) [''cats'', ''7'']
                     \<lparr>opt_length = None, opt_rules = None\<rparr>)
   \<and> set ''cats'' \<subseteq> set (ascii_lowercase @ ascii_uppercase @ digits @ concat symbols)
   \<and> set ''cats'' \<inter> set whitespace = {}"
proof -
  have c: "cleaned_token ''cats'' = ''cats''" and l: "lower ''cats'' = ''cats''"
    by (simp_all add: cleaned_token_def strip_def re_sub_non_alnum_def whitespace_def
        ascii_lowercase_def ascii_uppercase_def digits_def lower_def lower_char_def)
  have m: "''cats'' \<in> set (generate_wordlist rev (Some butlast) [''cats'', ''7'']
                     \<lparr>opt_length = None, opt_rules = None\<rparr>)"
    using lower_cleaned_in_output [OF valid_iter_rev, of "''cats''" "[''cats'', ''7'']"
        "\<lparr>opt_length = None, opt_rules = None\<rparr>" "Some butlast"]
    by (simp add: c l max_len_of_def get_length_def)
  have h: "\<forall>stem_fn w. Some butlast = Some stem_fn \<longrightarrow> isalpha w
           \<longrightarrow> set (stem_fn (lower w)) \<subseteq> set (ascii_lowercase @ ascii_uppercase @ digits)"
  proof (intro allI impI)
    fix stem_fn :: "string \<Rightarrow> string" and w
    assume s: "Some butlast = Some stem_fn" and "isalpha w"
    then have "set w \<subseteq> set (ascii_lowercase @ ascii_uppercase @ digits)"
      by (auto simp: isalpha_def list_all_iff)
    then have "set (lower w) \<subseteq> set (ascii_lowercase @ ascii_uppercase @ digits)"
      by (rule lower_alnum)
    moreover have "set (butlast (lower w)) \<subseteq> set (lower w)"
      by (auto dest: in_set_butlastD)
    ultimately show "set (stem_fn (lower w)) \<subseteq> set (ascii_lowercase @ ascii_uppercase @ digits)"
      using s by auto
  qed
  from output_characters [OF valid_iter_rev h] m show ?thesis by blast
qed

end
